theory Spec2Isabelle
  imports Main
begin

section \<open>The RSA demonstration of shor2.py\<close>

text \<open>
  The computational core of the script is lines 23--30 (key setup, session key,
  encryption) and lines 138--140 (the recovery behind the button). Everything else
  builds charts and panels from literals and is not modelled.

  Python integers are unbounded, so every value is an \<^typ>\<open>int\<close>. An exception is a
  value: each operation returns \<open>error + 'a\<close> with \<open>Inl\<close> for the raised exception.
\<close>

subsection \<open>Exceptions\<close>

text \<open>
  \<open>ValueError\<close> is Python's built-in exception with its message; it is the only
  exception the modelled lines can raise. \<open>InvalidKeyParameters\<close> is the error kind
  that the specification names; no statement of the source constructs it.
\<close>

datatype error = ValueError string | InvalidKeyParameters

subsection \<open>The built-in \<open>pow(base, exp, mod)\<close>\<close>

text \<open>
  The script calls the interpreter's three-argument \<open>pow\<close> on integers. The model
  follows CPython's \<open>long_pow\<close>: a zero modulus raises, a negative modulus is negated
  and the sign is restored at the end, modulus one returns zero at once, a negative
  exponent replaces the base by its modular inverse (\<open>long_invmod\<close>), and the power
  itself is computed by left-to-right square-and-multiply with a reduction after every
  multiplication.

  \<open>long_invmod(a, n)\<close> is the loop
  \<^verbatim>\<open>
    b, c = 1, 0
    while n != 0:
        q, r = divmod(a, n)
        a, n = n, r
        b, c = c, b - q*c
    if a != 1: raise ValueError("base is not invertible for the given modulus")
    return b
  \<close>
  Python's \<open>divmod\<close> on integers is floor division, as \<open>div\<close> and \<open>mod\<close> on
  \<^typ>\<open>int\<close> are.
\<close>

function invmod_loop :: "int \<Rightarrow> int \<Rightarrow> int \<Rightarrow> int \<Rightarrow> int \<times> int" where
  "invmod_loop a n b c =
     (if n = 0 then (a, b)
      else invmod_loop n (a mod n) c (b - (a div n) * c))"
  by pat_completeness auto
termination
  by (relation "measure (\<lambda>(a, n, b, c). nat \<bar>n\<bar>)") (auto simp: abs_mod_less)

declare invmod_loop.simps [simp del]

definition long_invmod :: "int \<Rightarrow> int \<Rightarrow> int option" where
  "long_invmod a n =
     (case invmod_loop a n 1 0 of (g, b) \<Rightarrow> if g = 1 then Some b else None)"

text \<open>
  Square-and-multiply over the bits of the exponent, most significant bit first: the
  recursion reaches the top bit first and, on the way back, squares the accumulator and
  multiplies by the base where the bit is set. Every product is reduced modulo \<open>c\<close>.
\<close>

function pow_loop :: "int \<Rightarrow> int \<Rightarrow> int \<Rightarrow> int" where
  "pow_loop a b c =
     (if b \<le> 0 then 1
      else let z = pow_loop a (b div 2) c;
               z2 = z * z mod c
           in if b mod 2 = 1 then z2 * a mod c else z2)"
  by pat_completeness auto
termination
  by (relation "measure (\<lambda>(a, b, c). nat b)") auto

declare pow_loop.simps [simp del]

text \<open>
  CPython reduces the base modulo \<open>c\<close> beforehand only when the base is negative or has
  more digits than the modulus; since every product is reduced anyway the value does not
  depend on that choice, and the model always reduces.
\<close>

definition pow :: "int \<Rightarrow> int \<Rightarrow> int \<Rightarrow> error + int" where
  "pow a b m =
     (if m = 0 then Inl (ValueError ''pow() 3rd argument cannot be 0'')
      else
        let negativeOutput = m < 0;
            c = \<bar>m\<bar>
        in if c = 1 then Inr 0
           else
             (case (if b < 0 then long_invmod a c else Some a) of
                None \<Rightarrow> Inl (ValueError ''base is not invertible for the given modulus'')
              | Some a' \<Rightarrow>
                  let z = pow_loop (a' mod c) \<bar>b\<bar> c
                  in Inr (if negativeOutput \<and> z \<noteq> 0 then z - c else z)))"

subsection \<open>The randomness source\<close>

text \<open>
  \<open>random.randint(a, b)\<close> returns some integer \<open>N\<close> with \<open>a \<le> N \<le> b\<close>. The model
  gives the set of possible results; a run of the script receives one of them.
\<close>

definition randint :: "int \<Rightarrow> int \<Rightarrow> int set" where
  "randint a b = {a..b}"

subsection \<open>Module state\<close>

text \<open>
  The names bound by lines 23--27. The one-letter names of the source carry the prefix
  \<open>rsa_\<close> here.
\<close>

record key_material =
  rsa_p :: int
  rsa_q :: int
  rsa_n :: int
  rsa_phi :: int
  rsa_e :: int
  rsa_d :: int

text \<open>
  The module's global names after line 30. The four names that only the button branch
  binds are \<open>None\<close> until it has run.
\<close>

record globals =
  keys :: key_material
  session_key :: int
  encrypted_key :: int
  p_found :: "int option"
  q_found :: "int option"
  d_eve :: "int option"
  recovered_key :: "int option"

subsection \<open>Lines 23--27: key setup\<close>

text \<open>
  \<^verbatim>\<open>
    p, q = 17, 23
    n = p * q
    phi = (p - 1) * (q - 1)
    e = 3
    d = pow(e, -1, phi)
  \<close>
  The three literals are the parameters of \<open>key_setup\<close>; the script is the instance
  \<open>key_setup 17 23 3\<close>. An exception of \<open>pow\<close> is not caught and ends the setup.
\<close>

definition key_setup :: "int \<Rightarrow> int \<Rightarrow> int \<Rightarrow> error + key_material" where
  "key_setup p q e =
     (let n = p * q;
          phi = (p - 1) * (q - 1)
      in case pow e (- 1) phi of
           Inl err \<Rightarrow> Inl err
         | Inr d \<Rightarrow>
             Inr \<lparr>rsa_p = p, rsa_q = q, rsa_n = n, rsa_phi = phi, rsa_e = e, rsa_d = d\<rparr>)"

subsection \<open>Lines 29--30: session key and encryption\<close>

text \<open>
  \<^verbatim>\<open>
    session_key = random.randint(20, 80)
    encrypted_key = pow(session_key, e, n)
  \<close>
  The argument \<open>r\<close> is the value that \<open>random.randint\<close> returned.
\<close>

definition encrypt_session :: "key_material \<Rightarrow> int \<Rightarrow> error + globals" where
  "encrypt_session km r =
     (case pow r (rsa_e km) (rsa_n km) of
        Inl err \<Rightarrow> Inl err
      | Inr c \<Rightarrow>
          Inr \<lparr>keys = km, session_key = r, encrypted_key = c,
               p_found = None, q_found = None, d_eve = None, recovered_key = None\<rparr>)"

subsection \<open>Lines 138--140: the recovery step\<close>

text \<open>
  \<^verbatim>\<open>
    p_found, q_found = p, q
    d_eve = pow(e, -1, (p_found - 1) * (q_found - 1))
    recovered_key = pow(encrypted_key, d_eve, n)
  \<close>
  The rest of the branch (lines 142--145) rebinds the display handles \<open>c1\<close>, \<open>c2\<close>,
  \<open>c3\<close> and draws three metrics.
\<close>

definition shor_attack :: "globals \<Rightarrow> error + globals" where
  "shor_attack s =
     (let pf = rsa_p (keys s);
          qf = rsa_q (keys s)
      in case pow (rsa_e (keys s)) (- 1) ((pf - 1) * (qf - 1)) of
           Inl err \<Rightarrow> Inl err
         | Inr de \<Rightarrow>
             (case pow (encrypted_key s) de (rsa_n (keys s)) of
                Inl err \<Rightarrow> Inl err
              | Inr rk \<Rightarrow>
                  Inr (s\<lparr>p_found := Some pf, q_found := Some qf,
                         d_eve := Some de, recovered_key := Some rk\<rparr>)))"

subsection \<open>One run of the script\<close>

text \<open>
  A run has two inputs from outside: the integer \<open>r\<close> returned by
  \<open>random.randint(20, 80)\<close> and whether \<open>st.button\<close> returned true.
\<close>

definition run_script :: "int \<Rightarrow> bool \<Rightarrow> error + globals" where
  "run_script r button =
     (case key_setup 17 23 3 of
        Inl err \<Rightarrow> Inl err
      | Inr km \<Rightarrow>
          (case encrypt_session km r of
             Inl err \<Rightarrow> Inl err
           | Inr s \<Rightarrow> if button then shor_attack s else Inr s))"

subsection \<open>Notions of the specification\<close>

text \<open>
  Primality, as the specification's contract for the key setup requires of \<open>p\<close> and
  \<open>q\<close>: greater than one and without a divisor strictly between one and itself.
\<close>

definition is_prime :: "int \<Rightarrow> bool" where
  "is_prime p \<longleftrightarrow> 1 < p \<and> (\<forall>m \<in> {2..<p}. \<not> m dvd p)"

text \<open>
  The specification's naive exponentiation: the running product starts as one and is
  multiplied by the base \<open>k\<close> times; it is kept reduced modulo \<open>n\<close> throughout, the
  starting value included.
\<close>

fun naive_pow :: "int \<Rightarrow> nat \<Rightarrow> int \<Rightarrow> int" where
  "naive_pow b 0 n = 1 mod n"
| "naive_pow b (Suc k) n = naive_pow b k n * b mod n"

subsection \<open>Executions of the application\<close>

text \<open>
  The script is a Streamlit application. Streamlit executes the whole script from top to
  bottom when the page is opened and again, in full, on every interaction;
  \<open>st.button\<close> returns true only in the execution that a click on it starts. A session
  is therefore a list of executions, the first without the button and one more for each
  click, and every execution makes its own call of \<open>random.randint\<close>. The argument
  lists the values those calls returned, in order.
\<close>

fun app_session :: "int list \<Rightarrow> (error + globals) list" where
  "app_session [] = []"
| "app_session (r # clicks) = run_script r False # map (\<lambda>r'. run_script r' True) clicks"

section \<open>Properties of the built-in \<open>pow\<close>\<close>

subsection \<open>The inverse loop is the extended Euclidean algorithm\<close>

text \<open>
  With a non-negative second argument the loop ends with the greatest common divisor in
  its first component.
\<close>

lemma invmod_loop_gcd:
  "0 \<le> n \<Longrightarrow> (n = 0 \<longrightarrow> 0 \<le> a) \<Longrightarrow> fst (invmod_loop a n b c) = gcd a n"
proof (induction a n b c rule: invmod_loop.induct)
  case (1 a n b c)
  show ?case
  proof (cases "n = 0")
    case True
    with "1.prems" show ?thesis by (subst invmod_loop.simps) simp
  next
    case False
    with "1.prems" have pos: "0 < n" by simp
    then have "0 \<le> a mod n" by simp
    moreover have "a mod n = 0 \<longrightarrow> 0 \<le> n" using pos by simp
    ultimately have "fst (invmod_loop n (a mod n) c (b - a div n * c)) = gcd n (a mod n)"
      using "1.IH" [OF False] by blast
    also have "\<dots> = gcd a n"
      by (metis gcd_red_int)
    finally show ?thesis using False by (subst invmod_loop.simps) simp
  qed
qed

text \<open>
  The loop keeps both coefficient pairs congruent to their remainders: if \<open>b * x\<close> is
  congruent to \<open>a\<close> and \<open>c * x\<close> to \<open>n\<close> modulo \<open>m\<close>, the returned coefficient
  times \<open>x\<close> is congruent to the returned divisor.
\<close>

lemma invmod_loop_bezout:
  "m dvd b * x - a \<Longrightarrow> m dvd c * x - n \<Longrightarrow>
   m dvd snd (invmod_loop a n b c) * x - fst (invmod_loop a n b c)"
proof (induction a n b c rule: invmod_loop.induct)
  case (1 a n b c)
  show ?case
  proof (cases "n = 0")
    case True
    with "1.prems" show ?thesis by (subst (1 2) invmod_loop.simps) simp
  next
    case False
    have "(b - a div n * c) * x - a mod n = (b * x - a) - a div n * (c * x - n)"
      by (simp add: algebra_simps minus_div_mult_eq_mod [symmetric])
    then have "m dvd (b - a div n * c) * x - a mod n"
      using "1.prems" by simp
    with "1.IH" [OF False "1.prems"(2)] show ?thesis
      using False by (subst (1 2) invmod_loop.simps) simp
  qed
qed

subsection \<open>Square-and-multiply computes the power\<close>

lemma pow_loop_eq:
  "1 < c \<Longrightarrow> pow_loop a b c = a ^ nat b mod c"
proof (induction a b c rule: pow_loop.induct)
  case (1 a b c)
  show ?case
  proof (cases "b \<le> 0")
    case True
    with "1.prems" show ?thesis by (subst pow_loop.simps) simp
  next
    case False
    then have IH: "pow_loop a (b div 2) c = a ^ nat (b div 2) mod c"
      using "1.IH" "1.prems" by simp
    have sq: "pow_loop a (b div 2) c * pow_loop a (b div 2) c mod c = a ^ (2 * nat (b div 2)) mod c"
      unfolding IH by (simp add: mod_mult_eq mult_2 power_add)
    show ?thesis
    proof (cases "b mod 2 = 1")
      case True
      have "b = 2 * (b div 2) + 1" using True by (metis mult_div_mod_eq)
      moreover have "0 \<le> b div 2" using False by simp
      ultimately have "nat b = Suc (2 * nat (b div 2))" by linarith
      then have "a ^ nat b mod c = (a ^ (2 * nat (b div 2)) mod c) * a mod c"
        by (simp add: mod_mult_right_eq mult.commute)
      with sq True False show ?thesis
        by (subst pow_loop.simps) (simp add: Let_def)
    next
      case odd: False
      have "b mod 2 = 0" using odd by presburger
      then have "b = 2 * (b div 2)" by (metis add.right_neutral mult_div_mod_eq)
      moreover have "0 \<le> b div 2" using False by simp
      ultimately have "nat b = 2 * nat (b div 2)" by linarith
      with sq odd False show ?thesis
        by (subst pow_loop.simps) (simp add: Let_def)
    qed
  qed
qed

subsection \<open>The inverse exists exactly for coprime arguments\<close>

lemma long_invmod_None_iff:
  "0 < n \<Longrightarrow> long_invmod a n = None \<longleftrightarrow> gcd a n \<noteq> 1"
  using invmod_loop_gcd [of n a 1 0]
  by (auto simp: long_invmod_def split: prod.splits if_splits)

lemma long_invmod_Some:
  assumes "long_invmod a n = Some x"
  shows "n dvd x * a - 1"
proof -
  have "n dvd snd (invmod_loop a n 1 0) * a - fst (invmod_loop a n 1 0)"
    by (rule invmod_loop_bezout) simp_all
  with assms show ?thesis
    by (auto simp: long_invmod_def split: prod.splits if_splits)
qed

subsection \<open>What \<open>pow\<close> returns\<close>

lemma pow_nonneg:
  "1 < m \<Longrightarrow> 0 \<le> b \<Longrightarrow> pow a b m = Inr (a ^ nat b mod m)"
  by (simp add: pow_def Let_def pow_loop_eq power_mod)

lemma pow_loop_one: "1 < c \<Longrightarrow> pow_loop x 1 c = x mod c"
  by (simp add: pow_loop_eq)

lemma pow_inverse:
  assumes "1 < m" and "gcd a m = 1"
  shows "\<exists>d. pow a (- 1) m = Inr d \<and> 0 \<le> d \<and> d < m \<and> a * d mod m = 1"
proof -
  from assms have "long_invmod a m \<noteq> None"
    by (simp add: long_invmod_None_iff)
  then obtain x where x: "long_invmod a m = Some x" by auto
  then have "m dvd x * a - 1" by (rule long_invmod_Some)
  then have "(x * a) mod m = 1 mod m"
    by (metis mod_eq_dvd_iff)
  then have inv: "a * (x mod m) mod m = 1"
    using assms(1) by (simp add: mod_mult_right_eq mult.commute)
  have "pow a (- 1) m = Inr (x mod m)"
    using assms(1) x by (simp add: pow_def Let_def pow_loop_one)
  with inv assms(1) show ?thesis by simp
qed

lemma pow_not_invertible:
  assumes "gcd a m \<noteq> 1"
  shows "pow a (- 1) m =
           Inl (ValueError (if m = 0 then ''pow() 3rd argument cannot be 0''
                            else ''base is not invertible for the given modulus''))"
proof (cases "m = 0")
  case True
  then show ?thesis by (simp add: pow_def)
next
  case False
  have ne1: "\<bar>m\<bar> \<noteq> 1"
  proof
    assume "\<bar>m\<bar> = 1"
    then have "m = 1 \<or> m = - 1" by linarith
    then have "gcd a m = 1" by auto
    with assms show False by simp
  qed
  have "0 < \<bar>m\<bar>" using False by simp
  moreover have "gcd a \<bar>m\<bar> \<noteq> 1" using assms by simp
  ultimately have "long_invmod a \<bar>m\<bar> = None"
    by (simp add: long_invmod_None_iff)
  with False ne1 show ?thesis by (simp add: pow_def Let_def)
qed

section \<open>Number theory for the round trip\<close>

subsection \<open>Primes\<close>

lemma is_prime_gt_1: "is_prime p \<Longrightarrow> 1 < p"
  by (simp add: is_prime_def)

lemma is_prime_divisors:
  assumes "is_prime p" and "m dvd p" and "0 < m"
  shows "m = 1 \<or> m = p"
proof -
  from assms(1) have "0 < p" by (simp add: is_prime_def)
  with assms(2) have "m \<le> p" by (simp add: zdvd_imp_le)
  moreover have "\<not> (2 \<le> m \<and> m < p)"
    using assms(1,2) by (auto simp: is_prime_def)
  ultimately show ?thesis using assms(3) by linarith
qed

lemma is_prime_coprime:
  assumes "is_prime p" and "\<not> p dvd k"
  shows "coprime p k"
proof -
  have "gcd p k dvd p" by simp
  moreover have "0 < gcd p k"
    using assms(1) by (simp add: is_prime_def gcd_pos_int)
  ultimately have "gcd p k = 1 \<or> gcd p k = p"
    using assms(1) by (rule is_prime_divisors [rotated])
  moreover have "gcd p k \<noteq> p"
    using assms(2) by (metis gcd_dvd2)
  ultimately show ?thesis by (simp add: coprime_iff_gcd_eq_1)
qed

lemma is_prime_dvd_mult:
  assumes "is_prime p" and "p dvd a * b" and "\<not> p dvd a"
  shows "p dvd b"
  using is_prime_coprime [OF assms(1,3)] assms(2)
  by (simp add: coprime_dvd_mult_right_iff)

lemma is_prime_dvd_choose:
  assumes "is_prime p" and "0 < k" and "k < nat p"
  shows "p dvd int (nat p choose k)"
proof -
  have "k * (nat p choose k) = nat p * (nat p - 1 choose (k - 1))"
    using assms(2) by (rule times_binomial_minus1_eq)
  then have "int k * int (nat p choose k) = int (nat p) * int (nat p - 1 choose (k - 1))"
    by (metis of_nat_mult)
  moreover have "int (nat p) = p" using assms(1) by (simp add: is_prime_def)
  ultimately have "p dvd int k * int (nat p choose k)" by simp
  moreover have "\<not> p dvd int k"
    using assms(2,3) by (simp add: zdvd_not_zless)
  ultimately show ?thesis
    using is_prime_dvd_mult [OF assms(1)] by blast
qed

text \<open>
  Fermat's little theorem, by induction on the base with the binomial expansion of
  \<open>(a + 1) ^ p\<close>: every inner binomial coefficient is a multiple of \<open>p\<close>.
\<close>

lemma fermat_little:
  assumes "is_prime p"
  shows "p dvd int a ^ nat p - int a"
proof (induction a)
  case 0
  from assms have "0 < nat p" by (simp add: is_prime_def)
  then have z: "(0::int) ^ nat p = 0" by (rule zero_power)
  show ?case unfolding of_nat_0 z by simp
next
  case (Suc a)
  define P where "P = nat p"
  define f where "f k = int (P choose k) * int a ^ k" for k
  from is_prime_gt_1 [OF assms] have P2: "Suc 0 \<le> P" "0 < P"
    unfolding P_def by linarith+
  have "int (Suc a) ^ P = (int a + 1) ^ P" by (simp add: add.commute)
  also have "\<dots> = (\<Sum>k\<le>P. f k)"
    by (simp add: binomial_ring f_def)
  also have "\<dots> = sum f {0..P}" by (simp add: atMost_atLeast0)
  also have "\<dots> = f 0 + sum f {Suc 0..P}"
    by (simp add: sum.atLeast_Suc_atMost)
  also have "sum f {Suc 0..P} = sum f {Suc 0..<Suc P}"
    by (simp add: atLeastLessThanSuc_atLeastAtMost)
  also have "\<dots> = sum f {Suc 0..<P} + f P"
    using P2(1) by (simp add: sum.atLeastLessThan_Suc)
  finally have expand: "int (Suc a) ^ P = f 0 + (sum f {Suc 0..<P} + f P)" .
  have mid: "p dvd sum f {Suc 0..<P}"
  proof (rule dvd_sum)
    fix k assume "k \<in> {Suc 0..<P}"
    then have "p dvd int (nat p choose k)"
      using assms by (intro is_prime_dvd_choose) (simp_all add: P_def)
    then show "p dvd f k" by (simp add: f_def P_def)
  qed
  have "int (Suc a) ^ P - int (Suc a) = sum f {Suc 0..<P} + (int a ^ P - int a)"
    unfolding expand by (simp add: f_def)
  moreover have "p dvd sum f {Suc 0..<P} + (int a ^ P - int a)"
    using mid Suc unfolding P_def by (rule dvd_add)
  ultimately show ?case unfolding P_def by (simp only:)
qed

lemma fermat_coprime:
  assumes "is_prime p" and "0 \<le> x" and "\<not> p dvd x"
  shows "x ^ (nat p - 1) mod p = 1"
proof -
  from assms(1) have P: "nat p = Suc (nat p - 1)" by (simp add: is_prime_def)
  have "p dvd int (nat x) ^ nat p - int (nat x)"
    using assms(1) by (rule fermat_little)
  then have "p dvd x ^ nat p - x" using assms(2) by simp
  also have "x ^ nat p - x = x * (x ^ (nat p - 1) - 1)"
    by (subst P) (simp add: algebra_simps)
  finally have "p dvd x * (x ^ (nat p - 1) - 1)" .
  then have "p dvd x ^ (nat p - 1) - 1"
    using is_prime_dvd_mult [OF assms(1) _ assms(3)] by blast
  then have "x ^ (nat p - 1) mod p = 1 mod p"
    by (metis mod_eq_dvd_iff)
  with assms(1) show ?thesis by (simp add: is_prime_def)
qed

lemma power_cycle_mod_prime:
  assumes "is_prime p" and "0 \<le> x"
  shows "p dvd x ^ Suc ((nat p - 1) * t) - x"
proof (cases "p dvd x")
  case True
  then show ?thesis by simp
next
  case False
  with assms have "x ^ (nat p - 1) mod p = 1" by (intro fermat_coprime)
  then have "(x ^ (nat p - 1)) ^ t mod p = 1 ^ t mod p"
    by (metis power_mod)
  then have "x ^ ((nat p - 1) * t) mod p = 1 mod p"
    by (simp add: power_mult)
  then have "x * x ^ ((nat p - 1) * t) mod p = x * 1 mod p"
    by (metis mod_mult_right_eq)
  then have "x ^ Suc ((nat p - 1) * t) mod p = x mod p" by simp
  then show ?thesis by (metis mod_eq_dvd_iff)
qed

lemma distinct_primes_coprime:
  assumes "is_prime p" and "is_prime q" and "p \<noteq> q"
  shows "coprime p q"
proof (rule is_prime_coprime [OF assms(1)])
  show "\<not> p dvd q"
  proof
    assume "p dvd q"
    moreover have "0 < p" using is_prime_gt_1 [OF assms(1)] by simp
    ultimately have "p = 1 \<or> p = q" using assms(2) by (rule is_prime_divisors [rotated])
    with assms(3) is_prime_gt_1 [OF assms(1)] show False by simp
  qed
qed

subsection \<open>Exponents congruent to one modulo \<open>(p - 1) * (q - 1)\<close>\<close>

lemma rsa_exponent_cycle:
  assumes p: "is_prime p" and q: "is_prime q" and pq: "p \<noteq> q"
    and x: "0 \<le> x" "x < p * q"
    and N: "int N mod ((p - 1) * (q - 1)) = 1"
  shows "x ^ N mod (p * q) = x"
proof -
  have p1: "1 < p" and q1: "1 < q" using p q by (simp_all add: is_prime_gt_1)
  define t where "t = int N div ((p - 1) * (q - 1))"
  have phi_pos: "0 < (p - 1) * (q - 1)" using p1 q1 by simp
  have "0 \<le> t" unfolding t_def using phi_pos by (simp add: pos_imp_zdiv_nonneg_iff)
  have "int N = (p - 1) * (q - 1) * t + 1"
    unfolding t_def using N by (metis mult_div_mod_eq)
  also have "\<dots> = int (Suc ((nat p - 1) * ((nat q - 1) * nat t)))"
    using p1 q1 \<open>0 \<le> t\<close> by (simp add: nat_diff_distrib' of_nat_diff)
  finally have Np: "N = Suc ((nat p - 1) * ((nat q - 1) * nat t))" by (simp only: of_nat_eq_iff)
  then have Nq: "N = Suc ((nat q - 1) * ((nat p - 1) * nat t))" by (simp add: mult.left_commute)
  have "p dvd x ^ N - x"
    unfolding Np using p x(1) by (rule power_cycle_mod_prime)
  moreover have "q dvd x ^ N - x"
    unfolding Nq using q x(1) by (rule power_cycle_mod_prime)
  moreover have "coprime p q" using p q pq by (rule distinct_primes_coprime)
  ultimately have "p * q dvd x ^ N - x" by (rule divides_mult)
  then have "x ^ N mod (p * q) = x mod (p * q)" by (metis mod_eq_dvd_iff)
  with x show ?thesis by simp
qed

section \<open>Key setup\<close>

text \<open>
  For a modulus \<open>phi\<close> greater than one and an exponent coprime to it the setup returns,
  and its \<open>d\<close> is the inverse of \<open>e\<close> reduced into \<open>0 \<le> d < phi\<close>.
\<close>

lemma key_setup_coprime:
  assumes "1 < (p - 1) * (q - 1)" and "gcd e ((p - 1) * (q - 1)) = 1"
  shows "\<exists>d. key_setup p q e =
             Inr \<lparr>rsa_p = p, rsa_q = q, rsa_n = p * q, rsa_phi = (p - 1) * (q - 1),
                  rsa_e = e, rsa_d = d\<rparr>
           \<and> 0 \<le> d \<and> d < (p - 1) * (q - 1) \<and> e * d mod ((p - 1) * (q - 1)) = 1"
proof -
  from pow_inverse [OF assms] obtain d where
    "pow e (- 1) ((p - 1) * (q - 1)) = Inr d" "0 \<le> d" "d < (p - 1) * (q - 1)"
    "e * d mod ((p - 1) * (q - 1)) = 1" by blast
  then show ?thesis by (simp add: key_setup_def Let_def)
qed

lemma distinct_primes_phi:
  assumes "is_prime p" and "is_prime q" and "p \<noteq> q"
  shows "1 < (p - 1) * (q - 1)"
proof -
  have "1 < p" "1 < q" using assms by (simp_all add: is_prime_gt_1)
  with assms(3) have "(2 \<le> p - 1 \<and> 1 \<le> q - 1) \<or> (1 \<le> p - 1 \<and> 2 \<le> q - 1)" by linarith
  then show ?thesis
  proof
    assume "2 \<le> p - 1 \<and> 1 \<le> q - 1"
    then have "2 * 1 \<le> (p - 1) * (q - 1)" by (intro mult_mono) simp_all
    then show ?thesis by simp
  next
    assume "1 \<le> p - 1 \<and> 2 \<le> q - 1"
    then have "1 * 2 \<le> (p - 1) * (q - 1)" by (intro mult_mono) simp_all
    then show ?thesis by simp
  qed
qed

section \<open>Naive exponentiation\<close>

lemma naive_pow_eq: "naive_pow b k n = b ^ k mod n"
proof (induction k)
  case 0
  show ?case by simp
next
  case (Suc k)
  then show ?case by (simp add: mod_mult_right_eq mult.commute)
qed

section \<open>The steps of the script, unfolded\<close>

lemma shor_attack_unfold:
  "shor_attack s =
     (case pow (rsa_e (keys s)) (- 1) ((rsa_p (keys s) - 1) * (rsa_q (keys s) - 1)) of
        Inl err \<Rightarrow> Inl err
      | Inr de \<Rightarrow>
          (case pow (encrypted_key s) de (rsa_n (keys s)) of
             Inl err \<Rightarrow> Inl err
           | Inr rk \<Rightarrow>
               Inr (s\<lparr>p_found := Some (rsa_p (keys s)), q_found := Some (rsa_q (keys s)),
                      d_eve := Some de, recovered_key := Some rk\<rparr>)))"
  by (simp add: shor_attack_def Let_def)

lemma shor_attack_Inr:
  assumes "shor_attack s = Inr s'"
  shows "\<exists>de rk. pow (rsa_e (keys s)) (- 1) ((rsa_p (keys s) - 1) * (rsa_q (keys s) - 1)) = Inr de
           \<and> pow (encrypted_key s) de (rsa_n (keys s)) = Inr rk
           \<and> s' = s\<lparr>p_found := Some (rsa_p (keys s)), q_found := Some (rsa_q (keys s)),
                     d_eve := Some de, recovered_key := Some rk\<rparr>"
  using assms unfolding shor_attack_unfold by (auto split: sum.splits)

lemma key_setup_Inr:
  assumes "key_setup p q e = Inr km"
  shows "pow e (- 1) ((p - 1) * (q - 1)) = Inr (rsa_d km)
         \<and> rsa_p km = p \<and> rsa_q km = q \<and> rsa_n km = p * q
         \<and> rsa_phi km = (p - 1) * (q - 1) \<and> rsa_e km = e"
  using assms by (auto simp: key_setup_def Let_def split: sum.splits)

lemma encrypt_session_Inr:
  assumes "encrypt_session km r = Inr s"
  shows "keys s = km \<and> session_key s = r \<and> pow r (rsa_e km) (rsa_n km) = Inr (encrypted_key s)
         \<and> p_found s = None \<and> q_found s = None \<and> d_eve s = None \<and> recovered_key s = None"
  using assms by (auto simp: encrypt_session_def split: sum.splits)

section \<open>A run of the script, evaluated\<close>

text \<open>
  With the literals of lines 23 and 26 the setup always returns, and a run returns for
  every value \<open>r\<close> of the randomness source: the cipher is \<open>r ^ 3 mod 391\<close> and the
  recovery, when the button is pressed, yields \<open>r mod 391\<close>.
\<close>

lemma script_key_setup:
  "key_setup 17 23 3 =
     Inr \<lparr>rsa_p = 17, rsa_q = 23, rsa_n = 391, rsa_phi = 352, rsa_e = 3, rsa_d = 235\<rparr>"
  by code_simp

lemma script_inverse: "pow 3 (- 1) ((17 - 1) * (23 - 1)) = Inr 235"
  by code_simp

lemma script_decrypt: "(r ^ 3 mod 391) ^ 235 mod 391 = r mod (391::int)"
proof -
  have p: "is_prime 17" and q: "is_prime 23" by code_simp+
  have "(r mod 391) ^ 705 mod (17 * 23) = r mod 391"
    using p q by (intro rsa_exponent_cycle) simp_all
  then have "r ^ 705 mod 391 = r mod 391" by (simp add: power_mod)
  moreover have "(r ^ 3 mod 391) ^ 235 mod 391 = (r ^ 3) ^ 235 mod 391"
    by (rule power_mod)
  moreover have "(r ^ 3) ^ 235 = r ^ 705"
    by (simp add: power_mult [symmetric])
  ultimately show ?thesis by (simp only:)
qed

lemma script_run:
  "run_script r button =
     Inr \<lparr>keys = \<lparr>rsa_p = 17, rsa_q = 23, rsa_n = 391, rsa_phi = 352, rsa_e = 3, rsa_d = 235\<rparr>,
          session_key = r, encrypted_key = r ^ 3 mod 391,
          p_found = (if button then Some 17 else None),
          q_found = (if button then Some 23 else None),
          d_eve = (if button then Some 235 else None),
          recovered_key = (if button then Some (r mod 391) else None)\<rparr>"
proof -
  have enc: "pow r 3 391 = Inr (r ^ 3 mod 391)"
    using pow_nonneg [of 391 3 r] by simp
  have dec: "pow (r ^ 3 mod 391) 235 391 = Inr (r mod 391)"
    using pow_nonneg [of 391 235 "r ^ 3 mod 391"] script_decrypt [of r] by simp
  show ?thesis
    unfolding run_script_def script_key_setup
    by (simp add: encrypt_session_def shor_attack_unfold enc dec script_inverse [simplified])
qed

section \<open>The script's constants\<close>

text \<open>
  C3. With \<open>p = 17\<close>, \<open>q = 23\<close>, \<open>e = 3\<close> the setup computes \<open>n = 391\<close>,
  \<open>phi = 352\<close> and \<open>d = 235\<close>, and \<open>3 * 235 mod 352 = 1\<close>. For the session key 50 the
  cipher is \<open>50 ^ 3 mod 391\<close> (which is 271), raising it to 235 modulo 391 gives 50, and
  a run of the script with the button pressed ends with \<open>recovered_key = 50\<close>.
\<close>

theorem concrete_scenario:
  "key_setup 17 23 3 =
     Inr \<lparr>rsa_p = 17, rsa_q = 23, rsa_n = 391, rsa_phi = 352, rsa_e = 3, rsa_d = 235\<rparr>
   \<and> (3 * 235) mod 352 = (1::int)
   \<and> pow 50 3 391 = Inr (50 ^ 3 mod 391)
   \<and> pow 271 235 391 = Inr 50
   \<and> run_script 50 True =
     Inr \<lparr>keys = \<lparr>rsa_p = 17, rsa_q = 23, rsa_n = 391, rsa_phi = 352, rsa_e = 3, rsa_d = 235\<rparr>,
          session_key = 50, encrypted_key = 271,
          p_found = Some 17, q_found = Some 23, d_eve = Some 235, recovered_key = Some 50\<rparr>"
  by code_simp

section \<open>Round trip of encryption and decryption\<close>

text \<open>
  C1. For distinct primes \<open>p\<close>, \<open>q\<close>, a public exponent \<open>e\<close> (a natural number) coprime
  to \<open>(p - 1) * (q - 1)\<close> and every message \<open>0 \<le> m < p * q\<close>: the key setup returns key
  material whose \<open>d\<close> is the inverse of \<open>e\<close> modulo \<open>phi\<close>, the encryption
  \<open>pow(m, e, n)\<close> returns a cipher \<open>c\<close>, and \<open>pow(c, d, n)\<close> returns \<open>m\<close>.
\<close>

theorem round_trip:
  assumes "is_prime p" and "is_prime q" and "p \<noteq> q"
    and "0 \<le> e" and "gcd e ((p - 1) * (q - 1)) = 1"
    and "0 \<le> m" and "m < p * q"
  shows "\<exists>km c. key_setup p q e = Inr km
           \<and> rsa_n km = p * q \<and> rsa_e km = e \<and> rsa_phi km = (p - 1) * (q - 1)
           \<and> rsa_e km * rsa_d km mod rsa_phi km = 1
           \<and> pow m (rsa_e km) (rsa_n km) = Inr c
           \<and> pow c (rsa_d km) (rsa_n km) = Inr m"
proof -
  have phi: "1 < (p - 1) * (q - 1)" using assms(1-3) by (rule distinct_primes_phi)
  have "e \<noteq> 0"
  proof
    assume "e = 0"
    with assms(5) have "\<bar>(p - 1) * (q - 1)\<bar> = 1" by simp
    with phi show False by simp
  qed
  with assms(4) have epos: "0 < e" by simp
  from key_setup_coprime [OF phi assms(5)] obtain d where
    ks: "key_setup p q e =
           Inr \<lparr>rsa_p = p, rsa_q = q, rsa_n = p * q, rsa_phi = (p - 1) * (q - 1),
                rsa_e = e, rsa_d = d\<rparr>"
    and d: "0 \<le> d" "e * d mod ((p - 1) * (q - 1)) = 1" by blast
  have n: "1 < p * q" using is_prime_gt_1 [OF assms(1)] is_prime_gt_1 [OF assms(2)]
    by (metis less_1_mult)
  have enc: "pow m e (p * q) = Inr (m ^ nat e mod (p * q))"
    using n epos by (simp add: pow_nonneg)
  have dec: "pow (m ^ nat e mod (p * q)) d (p * q) = Inr ((m ^ nat e mod (p * q)) ^ nat d mod (p * q))"
    using n d(1) by (simp add: pow_nonneg)
  have "int (nat e * nat d) = e * d" using epos d(1) by simp
  then have "int (nat e * nat d) mod ((p - 1) * (q - 1)) = 1" using d(2) by simp
  then have "m ^ (nat e * nat d) mod (p * q) = m"
    using assms(1,2,3,6,7) by (intro rsa_exponent_cycle)
  then have "(m ^ nat e mod (p * q)) ^ nat d mod (p * q) = m"
    by (simp add: power_mod power_mult)
  with ks enc dec d(2) show ?thesis by simp
qed

text \<open>The script's own parameters and the session key 50 satisfy every premise.\<close>

theorem round_trip_witness:
  "is_prime 17 \<and> is_prime 23 \<and> (17::int) \<noteq> 23 \<and> (0::int) \<le> 3
   \<and> gcd (3::int) ((17 - 1) * (23 - 1)) = 1 \<and> (0::int) \<le> 50 \<and> (50::int) < 17 * 23
   \<and> (\<exists>km c. key_setup 17 23 3 = Inr km
           \<and> rsa_n km = 17 * 23 \<and> rsa_e km = 3 \<and> rsa_phi km = (17 - 1) * (23 - 1)
           \<and> rsa_e km * rsa_d km mod rsa_phi km = 1
           \<and> pow 50 (rsa_e km) (rsa_n km) = Inr c
           \<and> pow c (rsa_d km) (rsa_n km) = Inr 50)"
proof -
  have h1: "is_prime 17" by code_simp
  have h2: "is_prime 23" by code_simp
  have h3: "(17::int) \<noteq> 23" by simp
  have h4: "(0::int) \<le> 3" by simp
  have h5: "gcd (3::int) ((17 - 1) * (23 - 1)) = 1" by code_simp
  have h6: "(0::int) \<le> 50" by simp
  have h7: "(50::int) < 17 * 23" by simp
  from round_trip [OF h1 h2 h3 h4 h5 h6 h7] h1 h2 h3 h4 h5 h6 h7 show ?thesis by blast
qed

section \<open>The inverse computed by the setup\<close>

text \<open>
  C4. Given two distinct primes, as the setup's contract has them, and an exponent with
  \<open>gcd(e, phi) = 1\<close>, the setup succeeds and the \<open>d\<close> it produces satisfies
  \<open>(e * d) mod phi = 1\<close>.
\<close>

theorem inverse_postcondition:
  assumes "is_prime p" and "is_prime q" and "p \<noteq> q"
    and "gcd e ((p - 1) * (q - 1)) = 1"
  shows "\<exists>km. key_setup p q e = Inr km \<and> rsa_e km = e \<and> rsa_phi km = (p - 1) * (q - 1)
           \<and> rsa_e km * rsa_d km mod rsa_phi km = 1"
proof -
  have phi: "1 < (p - 1) * (q - 1)" using assms(1-3) by (rule distinct_primes_phi)
  from key_setup_coprime [OF phi assms(4)] obtain d where
    "key_setup p q e =
       Inr \<lparr>rsa_p = p, rsa_q = q, rsa_n = p * q, rsa_phi = (p - 1) * (q - 1),
            rsa_e = e, rsa_d = d\<rparr>"
    "e * d mod ((p - 1) * (q - 1)) = 1" by blast
  then show ?thesis by simp
qed

text \<open>The script's constants satisfy every premise.\<close>

theorem inverse_postcondition_witness:
  "is_prime 17 \<and> is_prime 23 \<and> (17::int) \<noteq> 23
   \<and> gcd (3::int) ((17 - 1) * (23 - 1)) = 1
   \<and> (\<exists>km. key_setup 17 23 3 = Inr km \<and> rsa_e km = 3 \<and> rsa_phi km = (17 - 1) * (23 - 1)
           \<and> rsa_e km * rsa_d km mod rsa_phi km = 1)"
proof -
  have h1: "is_prime 17" by code_simp
  have h2: "is_prime 23" by code_simp
  have h3: "(17::int) \<noteq> 23" by simp
  have h4: "gcd (3::int) ((17 - 1) * (23 - 1)) = 1" by code_simp
  from inverse_postcondition [OF h1 h2 h3 h4] h1 h2 h3 h4 show ?thesis by blast
qed

section \<open>Failure of the setup\<close>

text \<open>
  C2, with the exception the code raises. For every \<open>e\<close> and \<open>phi = (p - 1) * (q - 1)\<close> with
  \<open>gcd(e, phi) \<noteq> 1\<close> the key setup fails and returns no \<open>d\<close>: the inverse computation
  \<open>pow(e, -1, phi)\<close> raises Python's \<open>ValueError\<close> (for a non-invertible base, or for
  the zero modulus when \<open>phi = 0\<close>), and the setup ends with that same exception, unchanged.
\<close>

theorem setup_fails_not_coprime:
  assumes "gcd e ((p - 1) * (q - 1)) \<noteq> 1"
  shows "\<exists>msg. pow e (- 1) ((p - 1) * (q - 1)) = Inl (ValueError msg)
           \<and> key_setup p q e = Inl (ValueError msg)
           \<and> msg = (if (p - 1) * (q - 1) = 0 then ''pow() 3rd argument cannot be 0''
                     else ''base is not invertible for the given modulus'')"
  using pow_not_invertible [OF assms] by (simp add: key_setup_def Let_def)

text \<open>The specification's own scenario, \<open>e = 2\<close> with \<open>phi = 352\<close>.\<close>

theorem setup_fails_not_coprime_witness:
  "gcd (2::int) ((17 - 1) * (23 - 1)) \<noteq> 1
   \<and> (\<exists>msg. pow 2 (- 1) ((17 - 1) * (23 - 1)) = Inl (ValueError msg)
           \<and> key_setup 17 23 2 = Inl (ValueError msg)
           \<and> msg = (if ((17::int) - 1) * (23 - 1) = 0 then ''pow() 3rd argument cannot be 0''
                     else ''base is not invertible for the given modulus''))"
proof -
  have h: "gcd (2::int) ((17 - 1) * (23 - 1)) \<noteq> 1" by code_simp
  from setup_fails_not_coprime [OF h] h show ?thesis by blast
qed

text \<open>
  The setup has no coprimality check of its own and no \<open>InvalidKeyParameters\<close> error: at
  \<open>e = 2\<close>, \<open>phi = 352\<close> the failure is the \<open>ValueError\<close> of the inverse computation.
\<close>

theorem setup_error_kind_counterexample:
  "gcd (2::int) ((17 - 1) * (23 - 1)) \<noteq> 1
   \<and> key_setup 17 23 2 = Inl (ValueError ''base is not invertible for the given modulus'')
   \<and> key_setup 17 23 2 \<noteq> Inl InvalidKeyParameters"
  by code_simp

section \<open>Fast against naive exponentiation\<close>

text \<open>
  C6. For every modulus \<open>n\<close>, every base \<open>0 \<le> b < n\<close> and every exponent \<open>k\<close>,
  \<open>pow(b, k, n)\<close> returns what \<open>k\<close> multiplications by \<open>b\<close> give, with the product
  reduced modulo \<open>n\<close> at each step.
\<close>

theorem pow_matches_naive:
  assumes "0 \<le> b" and "b < n"
  shows "pow b (int k) n = Inr (naive_pow b k n)"
proof (cases "1 < n")
  case True
  then show ?thesis by (simp add: pow_nonneg naive_pow_eq)
next
  case False
  with assms have "n = 1" by linarith
  then show ?thesis by (simp add: pow_def naive_pow_eq)
qed

text \<open>The script's encryption of the session key 50.\<close>

theorem pow_matches_naive_witness:
  "(0::int) \<le> 50 \<and> (50::int) < 391
   \<and> pow 50 (int 3) 391 = Inr (naive_pow 50 3 391) \<and> naive_pow 50 3 391 = 271"
proof -
  have h1: "(0::int) \<le> 50" by simp
  have h2: "(50::int) < 391" by simp
  have h3: "naive_pow 50 3 391 = 271" by code_simp
  from pow_matches_naive [OF h1 h2] h1 h2 h3 show ?thesis by blast
qed

section \<open>The recovery step\<close>

text \<open>
  C5. On a state produced by the key setup and the encryption, the recovery step takes
  \<open>p_found\<close> and \<open>q_found\<close> from \<open>p\<close> and \<open>q\<close> as they are, its \<open>d_eve\<close> is the
  setup's \<open>d\<close>, and it returns (or raises) exactly what the decryption
  \<open>pow(encrypted_key, d, n)\<close> does.
\<close>

theorem attack_is_decryption:
  assumes "key_setup p q e = Inr km" and "encrypt_session km r = Inr s"
  shows "shor_attack s =
           (case pow (encrypted_key s) (rsa_d km) (rsa_n km) of
              Inl err \<Rightarrow> Inl err
            | Inr rk \<Rightarrow>
                Inr (s\<lparr>p_found := Some p, q_found := Some q,
                       d_eve := Some (rsa_d km), recovered_key := Some rk\<rparr>))"
proof -
  from key_setup_Inr [OF assms(1)] have k:
    "pow e (- 1) ((p - 1) * (q - 1)) = Inr (rsa_d km)" "rsa_p km = p" "rsa_q km = q" "rsa_e km = e"
    by simp_all
  from encrypt_session_Inr [OF assms(2)] have ks: "keys s = km" by simp
  show ?thesis unfolding shor_attack_unfold ks k by simp
qed

text \<open>The state of the script for the session key 50.\<close>

theorem attack_is_decryption_witness:
  "key_setup 17 23 3 =
     Inr \<lparr>rsa_p = 17, rsa_q = 23, rsa_n = 391, rsa_phi = 352, rsa_e = 3, rsa_d = 235\<rparr>
   \<and> encrypt_session
       \<lparr>rsa_p = 17, rsa_q = 23, rsa_n = 391, rsa_phi = 352, rsa_e = 3, rsa_d = 235\<rparr> 50 =
     Inr \<lparr>keys = \<lparr>rsa_p = 17, rsa_q = 23, rsa_n = 391, rsa_phi = 352, rsa_e = 3, rsa_d = 235\<rparr>,
          session_key = 50, encrypted_key = 271,
          p_found = None, q_found = None, d_eve = None, recovered_key = None\<rparr>
   \<and> shor_attack
       \<lparr>keys = \<lparr>rsa_p = 17, rsa_q = 23, rsa_n = 391, rsa_phi = 352, rsa_e = 3, rsa_d = 235\<rparr>,
        session_key = 50, encrypted_key = 271,
        p_found = None, q_found = None, d_eve = None, recovered_key = None\<rparr> =
     Inr \<lparr>keys = \<lparr>rsa_p = 17, rsa_q = 23, rsa_n = 391, rsa_phi = 352, rsa_e = 3, rsa_d = 235\<rparr>,
          session_key = 50, encrypted_key = 271,
          p_found = Some 17, q_found = Some 23, d_eve = Some 235, recovered_key = Some 50\<rparr>"
proof -
  have h1: "key_setup 17 23 3 =
     Inr \<lparr>rsa_p = 17, rsa_q = 23, rsa_n = 391, rsa_phi = 352, rsa_e = 3, rsa_d = 235\<rparr>"
    by code_simp
  have h2: "encrypt_session
       \<lparr>rsa_p = 17, rsa_q = 23, rsa_n = 391, rsa_phi = 352, rsa_e = 3, rsa_d = 235\<rparr> 50 =
     Inr \<lparr>keys = \<lparr>rsa_p = 17, rsa_q = 23, rsa_n = 391, rsa_phi = 352, rsa_e = 3, rsa_d = 235\<rparr>,
          session_key = 50, encrypted_key = 271,
          p_found = None, q_found = None, d_eve = None, recovered_key = None\<rparr>"
    by code_simp
  have h3: "pow 271 235 391 = Inr 50" by code_simp
  from attack_is_decryption [OF h1 h2] h1 h2 h3 show ?thesis by simp
qed

text \<open>
  C7. Running the recovery step again on the state it left returns that same state, so
  the recovered value is the same both times; the key material and the cipher it reads are
  the ones it started from.
\<close>

theorem recovery_idempotent:
  assumes "shor_attack s = Inr s1"
  shows "shor_attack s1 = Inr s1 \<and> keys s1 = keys s \<and> encrypted_key s1 = encrypted_key s"
proof -
  from shor_attack_Inr [OF assms] obtain de rk where
    "pow (rsa_e (keys s)) (- 1) ((rsa_p (keys s) - 1) * (rsa_q (keys s) - 1)) = Inr de"
    "pow (encrypted_key s) de (rsa_n (keys s)) = Inr rk"
    "s1 = s\<lparr>p_found := Some (rsa_p (keys s)), q_found := Some (rsa_q (keys s)),
             d_eve := Some de, recovered_key := Some rk\<rparr>" by blast
  then show ?thesis unfolding shor_attack_unfold [of s1] by simp
qed

text \<open>The recovery step run on the script's state for the session key 50, and again on its result.\<close>

theorem recovery_idempotent_witness:
  "shor_attack
       \<lparr>keys = \<lparr>rsa_p = 17, rsa_q = 23, rsa_n = 391, rsa_phi = 352, rsa_e = 3, rsa_d = 235\<rparr>,
        session_key = 50, encrypted_key = 271,
        p_found = None, q_found = None, d_eve = None, recovered_key = None\<rparr> =
     Inr \<lparr>keys = \<lparr>rsa_p = 17, rsa_q = 23, rsa_n = 391, rsa_phi = 352, rsa_e = 3, rsa_d = 235\<rparr>,
          session_key = 50, encrypted_key = 271,
          p_found = Some 17, q_found = Some 23, d_eve = Some 235, recovered_key = Some 50\<rparr>
   \<and> shor_attack
       \<lparr>keys = \<lparr>rsa_p = 17, rsa_q = 23, rsa_n = 391, rsa_phi = 352, rsa_e = 3, rsa_d = 235\<rparr>,
        session_key = 50, encrypted_key = 271,
        p_found = Some 17, q_found = Some 23, d_eve = Some 235, recovered_key = Some 50\<rparr> =
     Inr \<lparr>keys = \<lparr>rsa_p = 17, rsa_q = 23, rsa_n = 391, rsa_phi = 352, rsa_e = 3, rsa_d = 235\<rparr>,
          session_key = 50, encrypted_key = 271,
          p_found = Some 17, q_found = Some 23, d_eve = Some 235, recovered_key = Some 50\<rparr>"
proof -
  have h: "shor_attack
       \<lparr>keys = \<lparr>rsa_p = 17, rsa_q = 23, rsa_n = 391, rsa_phi = 352, rsa_e = 3, rsa_d = 235\<rparr>,
        session_key = 50, encrypted_key = 271,
        p_found = None, q_found = None, d_eve = None, recovered_key = None\<rparr> =
     Inr \<lparr>keys = \<lparr>rsa_p = 17, rsa_q = 23, rsa_n = 391, rsa_phi = 352, rsa_e = 3, rsa_d = 235\<rparr>,
          session_key = 50, encrypted_key = 271,
          p_found = Some 17, q_found = Some 23, d_eve = Some 235, recovered_key = Some 50\<rparr>"
    by code_simp
  from recovery_idempotent [OF h] h show ?thesis by blast
qed

text \<open>
  C9, for one execution of the script. Within an execution the recovery step reads but
  does not modify \<open>p\<close>, \<open>q\<close>, \<open>n\<close>, \<open>phi\<close>, \<open>e\<close>, \<open>d\<close>, \<open>session_key\<close> and
  \<open>encrypted_key\<close>: after lines 138--140 each has the value it had before them, on
  every state and so on the one lines 23--30 of that execution left.
\<close>

theorem recovery_frame:
  assumes "shor_attack s = Inr s'"
  shows "rsa_p (keys s') = rsa_p (keys s) \<and> rsa_q (keys s') = rsa_q (keys s)
       \<and> rsa_n (keys s') = rsa_n (keys s) \<and> rsa_phi (keys s') = rsa_phi (keys s)
       \<and> rsa_e (keys s') = rsa_e (keys s) \<and> rsa_d (keys s') = rsa_d (keys s)
       \<and> session_key s' = session_key s \<and> encrypted_key s' = encrypted_key s"
proof -
  from shor_attack_Inr [OF assms] obtain de rk where
    "s' = s\<lparr>p_found := Some (rsa_p (keys s)), q_found := Some (rsa_q (keys s)),
             d_eve := Some de, recovered_key := Some rk\<rparr>" by blast
  then show ?thesis by simp
qed

text \<open>The recovery step run on the script's state for the session key 64.\<close>

theorem recovery_frame_witness:
  "shor_attack
       \<lparr>keys = \<lparr>rsa_p = 17, rsa_q = 23, rsa_n = 391, rsa_phi = 352, rsa_e = 3, rsa_d = 235\<rparr>,
        session_key = 64, encrypted_key = 174,
        p_found = None, q_found = None, d_eve = None, recovered_key = None\<rparr> =
     Inr \<lparr>keys = \<lparr>rsa_p = 17, rsa_q = 23, rsa_n = 391, rsa_phi = 352, rsa_e = 3, rsa_d = 235\<rparr>,
          session_key = 64, encrypted_key = 174,
          p_found = Some 17, q_found = Some 23, d_eve = Some 235, recovered_key = Some 64\<rparr>
   \<and> rsa_p (keys \<lparr>keys = \<lparr>rsa_p = 17, rsa_q = 23, rsa_n = 391, rsa_phi = 352, rsa_e = 3, rsa_d = 235\<rparr>,
          session_key = 64, encrypted_key = 174,
          p_found = Some 17, q_found = Some 23, d_eve = Some 235, recovered_key = Some 64\<rparr>) = 17
   \<and> session_key \<lparr>keys = \<lparr>rsa_p = 17, rsa_q = 23, rsa_n = 391, rsa_phi = 352, rsa_e = 3, rsa_d = 235\<rparr>,
          session_key = 64, encrypted_key = 174,
          p_found = Some 17, q_found = Some 23, d_eve = Some 235, recovered_key = Some 64\<rparr> = 64
   \<and> encrypted_key \<lparr>keys = \<lparr>rsa_p = 17, rsa_q = 23, rsa_n = 391, rsa_phi = 352, rsa_e = 3, rsa_d = 235\<rparr>,
          session_key = 64, encrypted_key = 174,
          p_found = Some 17, q_found = Some 23, d_eve = Some 235, recovered_key = Some 64\<rparr> = 174"
proof -
  have h: "shor_attack
       \<lparr>keys = \<lparr>rsa_p = 17, rsa_q = 23, rsa_n = 391, rsa_phi = 352, rsa_e = 3, rsa_d = 235\<rparr>,
        session_key = 64, encrypted_key = 174,
        p_found = None, q_found = None, d_eve = None, recovered_key = None\<rparr> =
     Inr \<lparr>keys = \<lparr>rsa_p = 17, rsa_q = 23, rsa_n = 391, rsa_phi = 352, rsa_e = 3, rsa_d = 235\<rparr>,
          session_key = 64, encrypted_key = 174,
          p_found = Some 17, q_found = Some 23, d_eve = Some 235, recovered_key = Some 64\<rparr>"
    by code_simp
  from recovery_frame [OF h] h show ?thesis by simp
qed

text \<open>
  Across executions the values are not derived once: the click that runs the recovery
  starts a new execution, which runs lines 23--30 again with its own result of
  \<open>random.randint\<close>. In a session whose page load draws 50 and whose click draws 64, the
  state in which the recovery has run has another session key and another cipher than the
  state at the start of the session.
\<close>

theorem derived_once_counterexample:
  "app_session [50, 64] =
     [Inr \<lparr>keys = \<lparr>rsa_p = 17, rsa_q = 23, rsa_n = 391, rsa_phi = 352, rsa_e = 3, rsa_d = 235\<rparr>,
           session_key = 50, encrypted_key = 271,
           p_found = None, q_found = None, d_eve = None, recovered_key = None\<rparr>,
      Inr \<lparr>keys = \<lparr>rsa_p = 17, rsa_q = 23, rsa_n = 391, rsa_phi = 352, rsa_e = 3, rsa_d = 235\<rparr>,
           session_key = 64, encrypted_key = 174,
           p_found = Some 17, q_found = Some 23, d_eve = Some 235, recovered_key = Some 64\<rparr>]
   \<and> session_key
        \<lparr>keys = \<lparr>rsa_p = 17, rsa_q = 23, rsa_n = 391, rsa_phi = 352, rsa_e = 3, rsa_d = 235\<rparr>,
         session_key = 64, encrypted_key = 174,
         p_found = Some 17, q_found = Some 23, d_eve = Some 235, recovered_key = Some 64\<rparr>
       \<noteq> session_key
        \<lparr>keys = \<lparr>rsa_p = 17, rsa_q = 23, rsa_n = 391, rsa_phi = 352, rsa_e = 3, rsa_d = 235\<rparr>,
         session_key = 50, encrypted_key = 271,
         p_found = None, q_found = None, d_eve = None, recovered_key = None\<rparr>
   \<and> encrypted_key
        \<lparr>keys = \<lparr>rsa_p = 17, rsa_q = 23, rsa_n = 391, rsa_phi = 352, rsa_e = 3, rsa_d = 235\<rparr>,
         session_key = 64, encrypted_key = 174,
         p_found = Some 17, q_found = Some 23, d_eve = Some 235, recovered_key = Some 64\<rparr>
       \<noteq> encrypted_key
        \<lparr>keys = \<lparr>rsa_p = 17, rsa_q = 23, rsa_n = 391, rsa_phi = 352, rsa_e = 3, rsa_d = 235\<rparr>,
         session_key = 50, encrypted_key = 271,
         p_found = None, q_found = None, d_eve = None, recovered_key = None\<rparr>"
  by code_simp

section \<open>The session key\<close>

text \<open>
  C8. The session key is a result of \<open>random.randint(20, 80)\<close>, an integer from 20 to 80
  inclusive. For every such value the run returns a state whose \<open>session_key\<close> is that
  value, whose \<open>n\<close> is 391, and the precondition of the encryption
  \<open>0 \<le> session_key < n\<close> holds.
\<close>

theorem session_key_precondition:
  assumes "r \<in> randint 20 80"
  shows "\<exists>s. run_script r button = Inr s \<and> session_key s = r \<and> rsa_n (keys s) = 391
           \<and> 0 \<le> session_key s \<and> session_key s < rsa_n (keys s)"
  using assms unfolding script_run by (simp add: randint_def)

text \<open>The lowest session key the randomness source can supply.\<close>

theorem session_key_precondition_witness:
  "(20::int) \<in> randint 20 80
   \<and> (\<exists>s. run_script 20 True = Inr s \<and> session_key s = 20 \<and> rsa_n (keys s) = 391
           \<and> 0 \<le> session_key s \<and> session_key s < rsa_n (keys s))"
proof -
  have h: "(20::int) \<in> randint 20 80" by (simp add: randint_def)
  from session_key_precondition [OF h] h show ?thesis by blast
qed

section \<open>Determinism given the session key\<close>

text \<open>
  C10. Two runs that receive the same value from the randomness source both return, and
  in both the session key is that value, the cipher is \<open>session_key ^ e mod n\<close> with
  \<open>e = 3\<close> and \<open>n = 391\<close>, and the recovered key, where the button made the recovery
  run, is the session key modulo \<open>n\<close>: the cipher is the same in both runs whatever the
  button did, and the recovered key is the same whenever both runs computed it.
\<close>

theorem pipeline_deterministic:
  assumes "r1 = r2"
  shows "\<exists>s1 s2.
           run_script r1 b1 = Inr s1 \<and> run_script r2 b2 = Inr s2
         \<and> session_key s1 = r1 \<and> session_key s2 = r2
         \<and> rsa_e (keys s1) = 3 \<and> rsa_n (keys s1) = 391 \<and> keys s2 = keys s1
         \<and> encrypted_key s1 = session_key s1 ^ nat (rsa_e (keys s1)) mod rsa_n (keys s1)
         \<and> encrypted_key s2 = encrypted_key s1
         \<and> recovered_key s1 = (if b1 then Some (session_key s1 mod rsa_n (keys s1)) else None)
         \<and> recovered_key s2 = (if b2 then Some (session_key s1 mod rsa_n (keys s1)) else None)"
  using assms unfolding script_run by simp

text \<open>Two runs with the session key 50, one without and one with the button.\<close>

theorem pipeline_deterministic_witness:
  "(50::int) = 50
   \<and> (\<exists>s1 s2.
           run_script 50 False = Inr s1 \<and> run_script 50 True = Inr s2
         \<and> session_key s1 = 50 \<and> session_key s2 = 50
         \<and> rsa_e (keys s1) = 3 \<and> rsa_n (keys s1) = 391 \<and> keys s2 = keys s1
         \<and> encrypted_key s1 = session_key s1 ^ nat (rsa_e (keys s1)) mod rsa_n (keys s1)
         \<and> encrypted_key s2 = encrypted_key s1
         \<and> recovered_key s1 = (if False then Some (session_key s1 mod rsa_n (keys s1)) else None)
         \<and> recovered_key s2 = (if True then Some (session_key s1 mod rsa_n (keys s1)) else None))"
proof -
  have h: "(50::int) = 50" by simp
  from pipeline_deterministic [OF h, of False True] show ?thesis by blast
qed

end
